theory Spec2Isabelle
  imports Complex_Main "HOL-Library.AList"
begin

section \<open>JavaScript values that the statistics see\<close>

text \<open>
  A duration is what \<^verbatim>\<open>_invokeLambda\<close> resolves to: \<^verbatim>\<open>Math.round(Number(parsedLog[2]))\<close>,
  an integer, or \<^verbatim>\<open>null\<close> when the log tail does not match \<^verbatim>\<open>REPORT_REGEX\<close>. It is modelled
  as \<open>int option\<close>, \<open>None\<close> being \<^verbatim>\<open>null\<close>. JavaScript numbers are IEEE doubles; here they
  are exact integers and rationals. Sums of integers are exact in doubles below \<open>2^53\<close>, and
  the one division of the code, followed by \<^verbatim>\<open>Math.round\<close>, gives the same integer in doubles
  as in exact arithmetic when the sum is below \<open>2^52\<close> (lemma \<open>rounded_quotient_exact\<close>). The
  results of \<^verbatim>\<open>Math.min\<close>, \<^verbatim>\<open>Math.max\<close> and \<^verbatim>\<open>Math.round\<close> on an empty array are not integers,
  hence the type \<open>jsnum\<close>.
\<close>

datatype jsnum = Num int | NaN | PosInf | NegInf

text \<open>\<^verbatim>\<open>ToNumber\<close> of ECMAScript on a duration: \<^verbatim>\<open>null\<close> converts to \<open>0\<close>.\<close>

fun ToNumber :: "int option \<Rightarrow> int" where
  "ToNumber None = 0"
| "ToNumber (Some d) = d"

text \<open>\<^verbatim>\<open>Math.round\<close>: the nearest integer, a tie going towards \<open>+\<infinity>\<close>.\<close>

definition Math_round :: "rat \<Rightarrow> int" where
  "Math_round q = \<lfloor>q + 1 / 2\<rfloor>"

text \<open>\<^verbatim>\<open>Math.min(...xs)\<close> and \<^verbatim>\<open>Math.max(...xs)\<close>: every argument goes through \<^verbatim>\<open>ToNumber\<close>;
  without arguments the results are \<^verbatim>\<open>Infinity\<close> and \<^verbatim>\<open>-Infinity\<close>.\<close>

fun Math_min :: "int option list \<Rightarrow> jsnum" where
  "Math_min [] = PosInf"
| "Math_min (x # xs) = Num (fold (\<lambda>d acc. min acc (ToNumber d)) xs (ToNumber x))"

fun Math_max :: "int option list \<Rightarrow> jsnum" where
  "Math_max [] = NegInf"
| "Math_max (x # xs) = Num (fold (\<lambda>d acc. max acc (ToNumber d)) xs (ToNumber x))"

section \<open>The statistics of one cycle\<close>

definition PERCENTILES :: "nat list" where
  "PERCENTILES = [50, 66, 75, 80, 90, 95, 98, 99]"

text \<open>
  \<^verbatim>\<open>_getAverage\<close>: \<^verbatim>\<open>durations.reduce((acc, duration) => acc + duration, 0) / durations.length\<close>,
  then \<^verbatim>\<open>Math.round\<close>. In \<^verbatim>\<open>acc + duration\<close> a \<^verbatim>\<open>null\<close> adds \<open>0\<close>. On the empty array the
  quotient is \<^verbatim>\<open>0 / 0\<close>, which is \<^verbatim>\<open>NaN\<close>, and \<^verbatim>\<open>Math.round(NaN)\<close> is \<^verbatim>\<open>NaN\<close>.
\<close>

definition getAverage :: "int option list \<Rightarrow> jsnum" where
  "getAverage durations =
     (let total = fold (\<lambda>duration acc. acc + ToNumber duration) durations 0;
          n = length durations
      in if n = 0 then NaN else Num (Math_round (rat_of_int total / rat_of_nat n)))"

record 'p step_report =
  min' :: jsnum
  max' :: jsnum
  avg :: jsnum
  percentiles :: "(nat \<times> 'p) list"

text \<open>
  \<^verbatim>\<open>_parseCycleResult\<close>. The function \<^verbatim>\<open>percentile\<close> is the npm package of that name, which is
  not part of the repository: it is the parameter \<open>pct\<close>, of which nothing is assumed. The
  object built by \<^verbatim>\<open>PERCENTILES.reduce\<close> is the list of its entries.
\<close>

definition parseCycleResult :: "(nat \<Rightarrow> int option list \<Rightarrow> 'p) \<Rightarrow> int option list \<Rightarrow> 'p step_report" where
  "parseCycleResult pct cycleResult =
     \<lparr> min' = Math_min cycleResult,
       max' = Math_max cycleResult,
       avg = getAverage cycleResult,
       percentiles = map (\<lambda>i. (i, pct i cycleResult)) PERCENTILES \<rparr>"

section \<open>The runner, the Lambda service and the trace of a run\<close>

text \<open>
  The fields that \<^verbatim>\<open>Object.assign(this, options)\<close> copies into the runner and that the
  code reads. \<^verbatim>\<open>payload\<close> is a value or a function of the invocation index; the function
  is user code and may throw.
\<close>

datatype error = ConfigurationReadError | ConfigurationUpdateError | InvocationError | PayloadError

datatype 'a payload_source = Value 'a | Function "nat \<Rightarrow> error + 'a"

record 'a runner =
  steps :: "int list"
  repeats :: nat
  concurrency :: nat
  warmup :: bool
  delay :: nat
  payload :: "'a payload_source"

text \<open>
  The events that the runner emits, and the trace of a run: every call of the Lambda client,
  every timer and every event, in the order in which they happen. \<open>Invoke i p\<close> is the call
  \<^verbatim>\<open>lambdaClient.invoke\<close> made by \<^verbatim>\<open>_invokeLambda(i)\<close> with payload \<open>p\<close>; \<open>Reply i v\<close> is the
  moment at which \<^verbatim>\<open>_invokeLambda(i)\<close> resolves to \<open>v\<close>.
\<close>

datatype 'p event =
    Start int
  | Step int
  | Warmup
  | InvokeEv "int option"
  | Result "'p step_report"
  | Finish

datatype ('a, 'p) action =
    GetFunctionConfiguration
  | UpdateFunctionConfiguration int
  | Invoke nat 'a
  | Reply nat "int option"
  | Delay nat
  | Emit "'p event"

type_synonym ('a, 'p) trace = "('a, 'p) action list"

text \<open>
  What the code does not decide is a parameter of the model. The Lambda service answers each
  call as a function of everything that has happened so far (the trace, which holds the
  payloads sent): \<open>getFunctionConfiguration\<close> gives \<^verbatim>\<open>MemorySize\<close> or rejects,
  \<open>updateFunctionConfiguration\<close> resolves or rejects, and \<open>invoke\<close> rejects or gives the
  outcome of \<^verbatim>\<open>REPORT_REGEX.exec(log)\<close> on the log tail of the response: \<open>None\<close> for no match,
  \<open>Some q\<close> when group 2 reads as the decimal \<open>q\<close> (a group 2 that is no decimal numeral,
  such as one with two dots, does not occur in the report line of the service and is left
  out). \<open>percentile\<close> is the npm package. Listeners of the events are taken not to throw.
  The last two fields stand for the scheduling that \<^verbatim>\<open>BPromise.map\<close> and the event loop leave
  open: \<open>next_start\<close> names the queued element whose mapper the map starts next (the library
  documents that order as unspecified), and \<open>next_event\<close> names the running mapper whose
  timer fires or whose response arrives next.
\<close>

record ('a, 'p) world =
  getFunctionConfiguration :: "('a, 'p) trace \<Rightarrow> error + int"
  updateFunctionConfiguration :: "('a, 'p) trace \<Rightarrow> int \<Rightarrow> error + unit"
  invoke :: "('a, 'p) trace \<Rightarrow> nat \<Rightarrow> error + rat option"
  percentile :: "nat \<Rightarrow> int option list \<Rightarrow> 'p"
  next_start :: "('a, 'p) trace \<Rightarrow> nat list \<Rightarrow> nat"
  next_event :: "('a, 'p) trace \<Rightarrow> nat list \<Rightarrow> nat"

text \<open>A scheduling choice is an element of the candidates; a choice outside them counts as
  the first candidate.\<close>

definition pick :: "('t \<Rightarrow> nat list \<Rightarrow> nat) \<Rightarrow> 't \<Rightarrow> nat list \<Rightarrow> nat" where
  "pick f h xs = (let k = f h xs in if k \<in> set xs then k else hd xs)"

section \<open>The calls of the Lambda client\<close>

definition getAllocatedMemory ::
  "('a, 'p) world \<Rightarrow> ('a, 'p) trace \<Rightarrow> (error + int) \<times> ('a, 'p) trace" where
  "getAllocatedMemory w h =
     (getFunctionConfiguration w h, h @ [GetFunctionConfiguration])"

definition setAllocatedMemory ::
  "('a, 'p) world \<Rightarrow> int \<Rightarrow> ('a, 'p) trace \<Rightarrow> (error + unit) \<times> ('a, 'p) trace" where
  "setAllocatedMemory w memorySize h =
     (updateFunctionConfiguration w h memorySize, h @ [UpdateFunctionConfiguration memorySize])"

text \<open>
  \<^verbatim>\<open>_invokeLambda(i)\<close> in two halves, so that other mappers can run between them: the first
  resolves the payload and sends the request, the second receives the response and reads
  the duration off the log.
\<close>

definition resolve_payload :: "'a payload_source \<Rightarrow> nat \<Rightarrow> error + 'a" where
  "resolve_payload src i = (case src of Function f \<Rightarrow> f i | Value v \<Rightarrow> Inr v)"

definition invokeLambda_send ::
  "'a runner \<Rightarrow> nat \<Rightarrow> ('a, 'p) trace \<Rightarrow> (error + unit) \<times> ('a, 'p) trace" where
  "invokeLambda_send r i h =
     (case resolve_payload (payload r) i of
        Inl e \<Rightarrow> (Inl e, h)
      | Inr p \<Rightarrow> (Inr (), h @ [Invoke i p]))"

definition invokeLambda_receive ::
  "('a, 'p) world \<Rightarrow> nat \<Rightarrow> ('a, 'p) trace \<Rightarrow> (error + int option) \<times> ('a, 'p) trace" where
  "invokeLambda_receive w i h =
     (case invoke w h i of
        Inl e \<Rightarrow> (Inl e, h)
      | Inr parsedLog \<Rightarrow>
          (let v = map_option Math_round parsedLog in (Inr v, h @ [Reply i v])))"

definition invokeLambda ::
  "'a runner \<Rightarrow> ('a, 'p) world \<Rightarrow> nat \<Rightarrow> ('a, 'p) trace \<Rightarrow> (error + int option) \<times> ('a, 'p) trace" where
  "invokeLambda r w i h =
     (case invokeLambda_send r i h of
        (Inl e, h1) \<Rightarrow> (Inl e, h1)
      | (Inr _, h1) \<Rightarrow> invokeLambda_receive w i h1)"

section \<open>One cycle\<close>

text \<open>
  \<^verbatim>\<open>BPromise.map(iterable, mapper, { concurrency })\<close>, with the mapper of \<^verbatim>\<open>_cycle\<close> inlined.
  \<open>queue\<close> holds the elements whose mapper has not started, \<open>timers\<close> the elements whose
  mapper waits in \<^verbatim>\<open>BPromise.delay\<close>, \<open>inflight\<close> those whose request has been sent, and
  \<open>results\<close> the results by position. The map starts a mapper as soon as fewer than
  \<open>concurrency\<close> of them run (a limit of \<open>0\<close> is no limit). It resolves to \<open>results\<close> when every
  mapper has resolved and rejects at the first rejection; the trace ends there, so
  what the mappers still running at a rejection do afterwards is not recorded.
\<close>

definition has_slot :: "'a runner \<Rightarrow> nat list \<Rightarrow> nat list \<Rightarrow> bool" where
  "has_slot r timers inflight \<longleftrightarrow>
     concurrency r = 0 \<or> length timers + length inflight < concurrency r"

function map_cycle ::
  "'a runner \<Rightarrow> ('a, 'p) world \<Rightarrow> nat list \<Rightarrow> nat list \<Rightarrow> nat list \<Rightarrow> int option list \<Rightarrow>
   ('a, 'p) trace \<Rightarrow> (error + int option list) \<times> ('a, 'p) trace" where
  "map_cycle r w queue timers inflight results h =
     (if queue \<noteq> [] \<and> has_slot r timers inflight then
        (let i = pick (next_start w) h queue
         in map_cycle r w (remove1 i queue) (timers @ [i]) inflight results
              (h @ [Delay (if concurrency r = 1 then delay r else 0)]))
      else if timers @ inflight = [] then (Inr results, h)
      else
        (let i = pick (next_event w) h (timers @ inflight)
         in if i \<in> set timers then
              (case invokeLambda_send r (i + 1) h of
                 (Inl e, h1) \<Rightarrow> (Inl e, h1)
               | (Inr _, h1) \<Rightarrow> map_cycle r w queue (remove1 i timers) (inflight @ [i]) results h1)
            else
              (case invokeLambda_receive w (i + 1) h of
                 (Inl e, h1) \<Rightarrow> (Inl e, h1)
               | (Inr invocationDuration, h1) \<Rightarrow>
                   map_cycle r w queue timers (remove1 i inflight) (results[i := invocationDuration])
                     (h1 @ [Emit (InvokeEv invocationDuration)]))))"
  by pat_completeness auto

termination map_cycle
proof (relation "measure (\<lambda>(r, w, queue, timers, inflight, results, h).
                   3 * length queue + 2 * length timers + length inflight)", goal_cases)
  case 1
  show ?case by simp
next
  case (2 r w queue timers inflight results h i)
  then have "i \<in> set queue" by (simp add: pick_def Let_def)
  then have "length queue = Suc (length (remove1 i queue))"
    by (induction queue) auto
  then show ?case by simp
next
  case (3 r w queue timers inflight results h i x y u)
  from \<open>i \<in> set timers\<close> have "length timers = Suc (length (remove1 i timers))"
    by (induction timers) auto
  then show ?case by simp
next
  case (4 r w queue timers inflight results h i x y v)
  have "xs \<noteq> [] \<Longrightarrow> pick f t xs \<in> set xs" for f :: "('a, 'p) trace \<Rightarrow> nat list \<Rightarrow> nat" and t xs
    by (simp add: pick_def Let_def)
  with 4 have "i \<in> set (timers @ inflight)" by blast
  with 4 have "i \<in> set inflight" by simp
  then have "length inflight = Suc (length (remove1 i inflight))"
    by (induction inflight) auto
  then show ?case by simp
qed

declare map_cycle.simps [simp del]

text \<open>
  \<^verbatim>\<open>_cycle(count)\<close>: the optional warm-up, the delay that follows it, then the map over
  \<^verbatim>\<open>Array.from(Array(count)).keys()\<close>, that is \<open>0, \<dots>, count - 1\<close>. A rejected warm-up skips
  the delay and the map.
\<close>

definition cycle ::
  "'a runner \<Rightarrow> ('a, 'p) world \<Rightarrow> nat \<Rightarrow> ('a, 'p) trace \<Rightarrow>
   (error + int option list) \<times> ('a, 'p) trace" where
  "cycle r w count h =
     (case (if warmup r \<and> concurrency r = 1
            then invokeLambda r w 0 (h @ [Emit Warmup])
            else (Inr None, h)) of
        (Inl e, h1) \<Rightarrow> (Inl e, h1)
      | (Inr _, h1) \<Rightarrow>
          map_cycle r w [0..<count] [] [] (replicate count None)
            (h1 @ [Delay (if warmup r then delay r else 0)]))"

section \<open>The sweep\<close>

text \<open>
  The callback of \<^verbatim>\<open>BPromise.reduce(this.steps, \<dots>, {})\<close>, here \<open>reducer\<close>: one step of the
  sweep. The report object is the list of its entries, and
  \<^verbatim>\<open>Object.assign(report, { [memoryStep]: parsedResult })\<close> sets or replaces one of them.
\<close>

definition reducer ::
  "'a runner \<Rightarrow> ('a, 'p) world \<Rightarrow> (int \<times> 'p step_report) list \<Rightarrow> int \<Rightarrow> ('a, 'p) trace \<Rightarrow>
   (error + (int \<times> 'p step_report) list) \<times> ('a, 'p) trace" where
  "reducer r w report memoryStep h =
     (case setAllocatedMemory w memoryStep h of
        (Inl e, h1) \<Rightarrow> (Inl e, h1)
      | (Inr _, h1) \<Rightarrow>
          (case cycle r w (repeats r) (h1 @ [Emit (Step memoryStep)]) of
             (Inl e, h2) \<Rightarrow> (Inl e, h2)
           | (Inr cycleResult, h2) \<Rightarrow>
               (let parsedResult = parseCycleResult (percentile w) cycleResult
                in (Inr (AList.update memoryStep parsedResult report),
                    h2 @ [Emit (Result parsedResult)]))))"

text \<open>\<^verbatim>\<open>BPromise.reduce\<close> calls the callback on one step after the other; the first rejection
  ends the reduction.\<close>

fun reduce_steps ::
  "'a runner \<Rightarrow> ('a, 'p) world \<Rightarrow> int list \<Rightarrow> (int \<times> 'p step_report) list \<Rightarrow> ('a, 'p) trace \<Rightarrow>
   (error + (int \<times> 'p step_report) list) \<times> ('a, 'p) trace" where
  "reduce_steps r w [] report h = (Inr report, h)"
| "reduce_steps r w (memoryStep # rest) report h =
     (case reducer r w report memoryStep h of
        (Inl e, h1) \<Rightarrow> (Inl e, h1)
      | (Inr report1, h1) \<Rightarrow> reduce_steps r w rest report1 h1)"

text \<open>
  \<^verbatim>\<open>run\<close>. When \<^verbatim>\<open>_getAllocatedMemory\<close> rejects, nothing else happens. Otherwise the
  \<^verbatim>\<open>finally\<close> handler runs after the reduction, fulfilled or rejected: it emits
  \<^verbatim>\<open>'finish'\<close> and returns the promise of \<^verbatim>\<open>_setAllocatedMemory(originalMemorySize)\<close>. If that
  promise rejects, its reason becomes the outcome of the run; if it resolves, the outcome of
  the reduction passes through.
\<close>

definition run ::
  "'a runner \<Rightarrow> ('a, 'p) world \<Rightarrow> (error + (int \<times> 'p step_report) list) \<times> ('a, 'p) trace" where
  "run r w =
     (case getAllocatedMemory w [] of
        (Inl e, h) \<Rightarrow> (Inl e, h)
      | (Inr originalMemorySize, h) \<Rightarrow>
          (case reduce_steps r w (steps r) [] (h @ [Emit (Start originalMemorySize)]) of
             (outcome, h1) \<Rightarrow>
               (case setAllocatedMemory w originalMemorySize (h1 @ [Emit Finish]) of
                  (Inl e, h2) \<Rightarrow> (Inl e, h2)
                | (Inr _, h2) \<Rightarrow> (outcome, h2))))"

section \<open>Reading a trace\<close>

text \<open>The memory sizes of the \<^verbatim>\<open>updateFunctionConfiguration\<close> calls of a trace, in order.\<close>

fun updates :: "('a, 'p) trace \<Rightarrow> int list" where
  "updates [] = []"
| "updates (UpdateFunctionConfiguration m # h) = m # updates h"
| "updates (_ # h) = updates h"

text \<open>The steps whose \<^verbatim>\<open>'step'\<close> event a trace holds, in order.\<close>

fun started :: "('a, 'p) trace \<Rightarrow> int list" where
  "started [] = []"
| "started (Emit (Step m) # h) = m # started h"
| "started (_ # h) = started h"

text \<open>The values to which the invocations of index \<open>i\<close> resolve in a trace, in order.\<close>

fun replies_to :: "nat \<Rightarrow> ('a, 'p) trace \<Rightarrow> int option list" where
  "replies_to i [] = []"
| "replies_to i (Reply j v # h) = (if j = i then v # replies_to i h else replies_to i h)"
| "replies_to i (_ # h) = replies_to i h"

text \<open>The timers and the requests of a trace, in order, without the payloads.\<close>

datatype tick = Wait nat | Call nat

fun ticks :: "('a, 'p) trace \<Rightarrow> tick list" where
  "ticks [] = []"
| "ticks (Delay ms # h) = Wait ms # ticks h"
| "ticks (Invoke i p # h) = Call i # ticks h"
| "ticks (_ # h) = ticks h"

text \<open>The actions of the map of a cycle: timers, requests and replies of the invocations
  \<open>1, 2, \<dots>\<close>, and \<^verbatim>\<open>'invoke'\<close> events.\<close>

fun in_map :: "('a, 'p) action \<Rightarrow> bool" where
  "in_map (Delay ms) = True"
| "in_map (Invoke i p) = (0 < i)"
| "in_map (Reply i v) = (0 < i)"
| "in_map (Emit (InvokeEv v)) = True"
| "in_map _ = False"

text \<open>The actions of a cycle: those of its map, and those of the warm-up.\<close>

fun in_cycle :: "('a, 'p) action \<Rightarrow> bool" where
  "in_cycle (Delay ms) = True"
| "in_cycle (Invoke i p) = True"
| "in_cycle (Reply i v) = True"
| "in_cycle (Emit (InvokeEv v)) = True"
| "in_cycle (Emit Warmup) = True"
| "in_cycle _ = False"

text \<open>
  \<open>settled pending results rs ext\<close>: in the results \<open>rs\<close> of a map that had \<open>results\<close> in hand
  and the mappers of \<open>pending\<close> still to finish, and whose trace from then on is \<open>ext\<close>, every
  pending position holds the one reply of its invocation, and the others are untouched.
\<close>

definition settled :: "nat list \<Rightarrow> int option list \<Rightarrow> int option list \<Rightarrow> ('a, 'p) trace \<Rightarrow> bool" where
  "settled pending results rs ext \<longleftrightarrow>
     length rs = length results \<and>
     (\<forall>i < length results.
        if i \<in> set pending then replies_to (Suc i) ext = [rs ! i]
        else rs ! i = results ! i \<and> replies_to (Suc i) ext = [])"


section \<open>Example runners and services\<close>

text \<open>A service that allocates 512 MB, accepts every update and reports 100.4 ms for every
  invocation; mappers start in index order and the oldest running mapper moves first. Its
  \<open>percentile\<close> carries no information.\<close>

definition steady :: "(unit, unit) world" where
  "steady =
     \<lparr> getFunctionConfiguration = (\<lambda>h. Inr 512),
       updateFunctionConfiguration = (\<lambda>h m. Inr ()),
       invoke = (\<lambda>h i. Inr (Some (1004 / 10))),
       percentile = (\<lambda>p xs. ()),
       next_start = (\<lambda>h queue. hd queue),
       next_event = (\<lambda>h running. hd running) \<rparr>"

text \<open>The same service when the log of every second invocation has no report line, and when
  no log has one.\<close>

definition patchy :: "(unit, unit) world" where
  "patchy = steady \<lparr> invoke := (\<lambda>h i. if even i then Inr None else Inr (Some (1004 / 10))) \<rparr>"

definition silent :: "(unit, unit) world" where
  "silent = steady \<lparr> invoke := (\<lambda>h i. Inr None) \<rparr>"

text \<open>A service whose invocations fail once 256 MB have been configured.\<close>

definition failing_at_256 :: "(unit, unit) world" where
  "failing_at_256 =
     steady \<lparr> invoke := (\<lambda>h i. if 256 \<in> set (updates h) then Inl InvocationError
                                else Inr (Some (1004 / 10))) \<rparr>"

text \<open>A service whose invocations fail and which rejects the update made after
  \<^verbatim>\<open>'finish'\<close>.\<close>

definition unrestorable :: "(unit, unit) world" where
  "unrestorable =
     steady \<lparr> invoke := (\<lambda>h i. Inl InvocationError),
              updateFunctionConfiguration :=
                (\<lambda>h m. if Emit Finish \<in> set h then Inl ConfigurationUpdateError else Inr ()) \<rparr>"

text \<open>A service that answers the youngest request first and takes \<open>100 + 10 * i\<close> ms for
  invocation \<open>i\<close>, under a map that starts the last queued element first.\<close>

definition youngest_first :: "(unit, unit) world" where
  "youngest_first =
     steady \<lparr> invoke := (\<lambda>h i. Inr (Some (rat_of_nat (100 + 10 * i)))),
              next_start := (\<lambda>h queue. last queue),
              next_event := (\<lambda>h running. last running) \<rparr>"

text \<open>The entries of \<^verbatim>\<open>percentiles\<close> under the \<open>percentile\<close> of these services.\<close>

definition blank :: "(nat \<times> unit) list" where
  "blank = [(50, ()), (66, ()), (75, ()), (80, ()), (90, ()), (95, ()), (98, ()), (99, ())]"

definition sweep :: "int list \<Rightarrow> nat \<Rightarrow> nat \<Rightarrow> bool \<Rightarrow> nat \<Rightarrow> unit runner" where
  "sweep ss n c wu d =
     \<lparr> steps = ss, repeats = n, concurrency = c, warmup = wu, delay = d, payload = Value () \<rparr>"

section \<open>Properties of the statistics\<close>

lemma fold_add_ToNumber:
  "fold (\<lambda>duration acc. acc + ToNumber duration) ds a = a + sum_list (map ToNumber ds)"
  by (induction ds arbitrary: a) simp_all

lemma fold_min_ToNumber:
  "fold (\<lambda>d acc. min acc (ToNumber d)) ds a = Min (insert a (ToNumber ` set ds))"
proof (induction ds arbitrary: a)
  case Nil
  show ?case by simp
next
  case (Cons d ds)
  have "Min (insert (min a (ToNumber d)) (ToNumber ` set ds))
      = Min (insert a (insert (ToNumber d) (ToNumber ` set ds)))"
    by (cases "ds = []") (simp_all add: min.assoc)
  with Cons show ?case by simp
qed

lemma fold_max_ToNumber:
  "fold (\<lambda>d acc. max acc (ToNumber d)) ds a = Max (insert a (ToNumber ` set ds))"
proof (induction ds arbitrary: a)
  case Nil
  show ?case by simp
next
  case (Cons d ds)
  have "Max (insert (max a (ToNumber d)) (ToNumber ` set ds))
      = Max (insert a (insert (ToNumber d) (ToNumber ` set ds)))"
    by (cases "ds = []") (simp_all add: max.assoc)
  with Cons show ?case by simp
qed

lemma Math_min_nonempty:
  "ds \<noteq> [] \<Longrightarrow> Math_min ds = Num (Min (ToNumber ` set ds))"
  by (cases ds) (simp_all add: fold_min_ToNumber)

lemma Math_max_nonempty:
  "ds \<noteq> [] \<Longrightarrow> Math_max ds = Num (Max (ToNumber ` set ds))"
  by (cases ds) (simp_all add: fold_max_ToNumber)

lemma getAverage_nonempty:
  "ds \<noteq> [] \<Longrightarrow>
   getAverage ds = Num (Math_round (rat_of_int (sum_list (map ToNumber ds)) / rat_of_nat (length ds)))"
  by (simp add: getAverage_def fold_add_ToNumber)

lemma Math_round_bounds:
  "rat_of_int (Math_round q) - 1 / 2 \<le> q \<and> q < rat_of_int (Math_round q) + 1 / 2"
  unfolding Math_round_def by linarith

lemma Math_round_mono: "p \<le> q \<Longrightarrow> Math_round p \<le> Math_round q"
  unfolding Math_round_def by (intro floor_mono) simp

lemma Math_round_of_int: "Math_round (rat_of_int k) = k"
  unfolding Math_round_def by linarith



text \<open>
  Doubles instead of exact quotients: let \<open>fl\<close> round a quotient to a double, that is, be
  monotone, leave the half-integers from \<open>-1/2\<close> to \<open>2^52 - 1/2\<close> alone (they are doubles) and
  have a relative error of at most \<open>2^-53\<close>. Then rounding the double quotient of a sum below
  \<open>2^52\<close> gives the integer that rounding the exact quotient gives.
\<close>

lemma rounded_quotient_exact:
  fixes fl :: "rat \<Rightarrow> rat" and s :: int and n :: nat
  assumes mono: "\<And>x y. x \<le> y \<Longrightarrow> fl x \<le> fl y"
    and half: "\<And>k :: int. - 1 \<le> k \<Longrightarrow> k < 2 ^ 52 \<Longrightarrow> fl (rat_of_int k + 1 / 2) = rat_of_int k + 1 / 2"
    and err: "\<And>x. \<bar>fl x - x\<bar> \<le> \<bar>x\<bar> / 2 ^ 53"
    and s: "0 \<le> s" "s < 2 ^ 52" and n: "0 < n"
  shows "Math_round (fl (rat_of_int s / rat_of_nat n)) = Math_round (rat_of_int s / rat_of_nat n)"
proof -
  let ?q = "rat_of_int s / rat_of_nat n"
  define a where "a = Math_round ?q"
  have npos: "0 < rat_of_nat n" using n by simp
  have q0: "0 \<le> ?q" using s(1) by simp
  from n have "1 \<le> rat_of_nat n" by simp
  with s(1) have "rat_of_int s \<le> rat_of_int s * rat_of_nat n"
    by (simp add: mult_le_cancel_left1)
  with npos have qs: "?q \<le> rat_of_int s" by (simp add: pos_divide_le_eq)
  from Math_round_mono [OF q0] Math_round_of_int [of 0] have a0: "0 \<le> a" by (simp add: a_def)
  from Math_round_mono [OF qs] Math_round_of_int [of s] s(2) have a1: "a < 2 ^ 52"
    by (simp add: a_def)
  from Math_round_bounds [of ?q] have lo: "rat_of_int a - 1 / 2 \<le> ?q" and hi: "?q < rat_of_int a + 1 / 2"
    by (simp_all add: a_def)
  have "fl (rat_of_int (a - 1) + 1 / 2) \<le> fl ?q" using lo by (intro mono) simp
  moreover have "fl (rat_of_int (a - 1) + 1 / 2) = rat_of_int (a - 1) + 1 / 2"
    using a0 a1 by (intro half) simp_all
  ultimately have lo': "rat_of_int a - 1 / 2 \<le> fl ?q" by simp
  have "fl ?q \<le> fl (rat_of_int a + 1 / 2)" using hi by (intro mono) simp
  moreover have "fl (rat_of_int a + 1 / 2) = rat_of_int a + 1 / 2"
    using a0 a1 by (intro half) simp_all
  ultimately have le: "fl ?q \<le> rat_of_int a + 1 / 2" by simp
  have "fl ?q \<noteq> rat_of_int a + 1 / 2"
  proof
    assume eq: "fl ?q = rat_of_int a + 1 / 2"
    from err [of ?q] eq hi q0 have gap: "rat_of_int a + 1 / 2 - ?q \<le> ?q / 2 ^ 53" by simp
    from hi npos have "rat_of_int s < (rat_of_int a + 1 / 2) * rat_of_nat n"
      by (simp add: pos_divide_less_eq)
    then have "2 * rat_of_int s < rat_of_int ((2 * a + 1) * int n)"
      by (simp add: algebra_simps)
    then have "rat_of_int (2 * s) < rat_of_int ((2 * a + 1) * int n)" by simp
    then have "2 * s < (2 * a + 1) * int n" by (simp only: of_int_less_iff)
    then have "2 * s + 1 \<le> (2 * a + 1) * int n" by simp
    then have "rat_of_int (2 * s + 1) \<le> rat_of_int ((2 * a + 1) * int n)" by (simp only: of_int_le_iff)
    then have "2 * rat_of_int s + 1 \<le> (2 * rat_of_int a + 1) * rat_of_nat n" by simp
    then have "1 \<le> 2 * rat_of_nat n * (rat_of_int a + 1 / 2 - ?q)"
      using npos by (simp add: algebra_simps)
    also have "\<dots> \<le> 2 * rat_of_nat n * (?q / 2 ^ 53)"
      using gap npos by (intro mult_left_mono) simp_all
    also have "\<dots> = rat_of_int s / 2 ^ 52" using npos by simp
    finally have "2 ^ 52 \<le> rat_of_int s" by simp
    then have "rat_of_int (2 ^ 52) \<le> rat_of_int s" by simp
    then have "2 ^ 52 \<le> s" by (simp only: of_int_le_iff)
    with s(2) show False by simp
  qed
  with le have hi': "fl ?q < rat_of_int a + 1 / 2" by simp
  have "Math_round (fl ?q) = a"
    unfolding Math_round_def using lo' hi' by linarith
  then show ?thesis by (simp add: a_def)
qed





lemma parseCycleResult_all_null:
  assumes "0 < n"
  shows "min' (parseCycleResult pct (replicate n None)) = Num 0"
    and "max' (parseCycleResult pct (replicate n None)) = Num 0"
    and "avg (parseCycleResult pct (replicate n None)) = Num 0"
proof -
  from assms have ne: "replicate n (None :: int option) \<noteq> []" by simp
  from assms have img: "ToNumber ` set (replicate n None) = {0}" by simp
  show "min' (parseCycleResult pct (replicate n None)) = Num 0"
    using Math_min_nonempty [OF ne] img by (simp add: parseCycleResult_def)
  show "max' (parseCycleResult pct (replicate n None)) = Num 0"
    using Math_max_nonempty [OF ne] img by (simp add: parseCycleResult_def)
  have "sum_list (map ToNumber (replicate n None)) = 0" by (induction n) simp_all
  then show "avg (parseCycleResult pct (replicate n None)) = Num 0"
    using getAverage_nonempty [OF ne] Math_round_of_int [of 0]
    by (simp add: parseCycleResult_def)
qed

section \<open>Reading the trace of a concatenation\<close>

lemma replies_to_append: "replies_to i (a @ b) = replies_to i a @ replies_to i b"
  by (induction i a rule: replies_to.induct) simp_all

lemma updates_append: "updates (a @ b) = updates a @ updates b"
  by (induction a rule: updates.induct) simp_all

lemma started_append: "started (a @ b) = started a @ started b"
  by (induction a rule: started.induct) simp_all


lemma in_map_in_cycle: "in_map a \<Longrightarrow> in_cycle a"
  by (induction a rule: in_map.induct) simp_all

lemma in_cycle_quiet:
  "list_all in_cycle ext \<Longrightarrow> updates ext = [] \<and> started ext = [] \<and> Emit Finish \<notin> set ext"
proof (induction ext)
  case Nil
  show ?case by simp
next
  case (Cons a ext)
  then show ?case by (cases a rule: in_cycle.cases) auto
qed

lemma in_map_quiet:
  "list_all in_map ext \<Longrightarrow> Emit Warmup \<notin> set ext \<and> (\<forall>p. Invoke 0 p \<notin> set ext) \<and> replies_to 0 ext = []"
proof (induction ext)
  case Nil
  show ?case by simp
next
  case (Cons a ext)
  then show ?case by (cases a rule: in_map.cases) auto
qed

section \<open>The map of a cycle\<close>

text \<open>
  The recursive equation of \<open>map_cycle\<close>, one branch at a time: a mapper starts, the map
  resolves, a timer fires, a response arrives.
\<close>

lemma pick_mem: "xs \<noteq> [] \<Longrightarrow> pick f h xs \<in> set xs"
  by (simp add: pick_def Let_def)

lemma send_cases:
  obtains e where "invokeLambda_send r i h = (Inl e, h)" "resolve_payload (payload r) i = Inl e"
  | p where "invokeLambda_send r i h = (Inr (), h @ [Invoke i p])" "resolve_payload (payload r) i = Inr p"
  by (cases "resolve_payload (payload r) i") (auto simp: invokeLambda_send_def)

lemma receive_cases:
  obtains e where "invokeLambda_receive w i h = (Inl e, h)" "invoke w h i = Inl e"
  | q where "invokeLambda_receive w i h = (Inr (map_option Math_round q), h @ [Reply i (map_option Math_round q)])"
       "invoke w h i = Inr q"
  by (cases "invoke w h i") (auto simp: invokeLambda_receive_def Let_def)

lemma length_remove1_mem: "x \<in> set xs \<Longrightarrow> length xs = Suc (length (remove1 x xs))"
  by (induction xs) auto

lemma has_slot_empty: "has_slot r [] []"
  by (auto simp: has_slot_def)

lemma map_cycle_start:
  assumes "queue \<noteq> []" "has_slot r timers inflight"
  shows "map_cycle r w queue timers inflight results h =
         map_cycle r w (remove1 (pick (next_start w) h queue) queue)
           (timers @ [pick (next_start w) h queue]) inflight results
           (h @ [Delay (if concurrency r = 1 then delay r else 0)])"
proof -
  from assms have c: "queue \<noteq> [] \<and> has_slot r timers inflight" by simp
  show ?thesis
    by (subst map_cycle.simps, subst if_P, rule c, simp only: Let_def)
qed

lemma map_cycle_done:
  assumes "\<not> (queue \<noteq> [] \<and> has_slot r timers inflight)" "timers @ inflight = []"
  shows "map_cycle r w queue timers inflight results h = (Inr results, h)"
  by (subst map_cycle.simps, subst if_not_P, rule assms(1), subst if_P, rule assms(2), rule refl)

lemma map_cycle_fire:
  assumes "\<not> (queue \<noteq> [] \<and> has_slot r timers inflight)" "timers @ inflight \<noteq> []"
    and "i = pick (next_event w) h (timers @ inflight)" "i \<in> set timers"
  shows "map_cycle r w queue timers inflight results h =
         (case invokeLambda_send r (i + 1) h of
            (Inl e, h1) \<Rightarrow> (Inl e, h1)
          | (Inr _, h1) \<Rightarrow> map_cycle r w queue (remove1 i timers) (inflight @ [i]) results h1)"
  by (subst map_cycle.simps, subst if_not_P, rule assms(1), subst if_not_P, rule assms(2),
      simp only: Let_def assms(3) [symmetric], subst if_P, rule assms(4), rule refl)

lemma map_cycle_answer:
  assumes "\<not> (queue \<noteq> [] \<and> has_slot r timers inflight)" "timers @ inflight \<noteq> []"
    and "i = pick (next_event w) h (timers @ inflight)" "i \<notin> set timers"
  shows "map_cycle r w queue timers inflight results h =
         (case invokeLambda_receive w (i + 1) h of
            (Inl e, h1) \<Rightarrow> (Inl e, h1)
          | (Inr invocationDuration, h1) \<Rightarrow>
              map_cycle r w queue timers (remove1 i inflight) (results[i := invocationDuration])
                (h1 @ [Emit (InvokeEv invocationDuration)]))"
  by (subst map_cycle.simps, subst if_not_P, rule assms(1), subst if_not_P, rule assms(2),
      simp only: Let_def assms(3) [symmetric], subst if_not_P, rule assms(4), rule refl)

text \<open>
  An invariant rule for the map: a property \<open>Q\<close> of the state and the outcome holds of
  \<open>map_cycle\<close> when it holds of a resolved map and goes backwards through every step, whichever
  mapper the scheduling picks.
\<close>

lemma map_cycle_rule [consumes 0, case_names resolved started throws sent rejected replied]:
  fixes r :: "'a runner" and w :: "('a, 'p) world"
  assumes "\<And>results h. Q [] [] [] results h (Inr results, h)"
    and "\<And>queue timers inflight results h i out.
           \<lbrakk>has_slot r timers inflight; i \<in> set queue; i = pick (next_start w) h queue;
            Q (remove1 i queue) (timers @ [i]) inflight results
              (h @ [Delay (if concurrency r = 1 then delay r else 0)]) out\<rbrakk>
           \<Longrightarrow> Q queue timers inflight results h out"
    and "\<And>queue timers inflight results h i e.
           \<lbrakk>\<not> (queue \<noteq> [] \<and> has_slot r timers inflight); i \<in> set timers;
            resolve_payload (payload r) (i + 1) = Inl e\<rbrakk>
           \<Longrightarrow> Q queue timers inflight results h (Inl e, h)"
    and "\<And>queue timers inflight results h i p out.
           \<lbrakk>\<not> (queue \<noteq> [] \<and> has_slot r timers inflight); i \<in> set timers;
            resolve_payload (payload r) (i + 1) = Inr p;
            Q queue (remove1 i timers) (inflight @ [i]) results (h @ [Invoke (i + 1) p]) out\<rbrakk>
           \<Longrightarrow> Q queue timers inflight results h out"
    and "\<And>queue timers inflight results h i e.
           \<lbrakk>\<not> (queue \<noteq> [] \<and> has_slot r timers inflight); i \<in> set inflight; i \<notin> set timers;
            invoke w h (i + 1) = Inl e\<rbrakk>
           \<Longrightarrow> Q queue timers inflight results h (Inl e, h)"
    and "\<And>queue timers inflight results h i q v out.
           \<lbrakk>\<not> (queue \<noteq> [] \<and> has_slot r timers inflight); i \<in> set inflight; i \<notin> set timers;
            invoke w h (i + 1) = Inr q; v = map_option Math_round q;
            Q queue timers (remove1 i inflight) (results[i := v])
              (h @ [Reply (i + 1) v, Emit (InvokeEv v)]) out\<rbrakk>
           \<Longrightarrow> Q queue timers inflight results h out"
  shows "Q queue timers inflight results h (map_cycle r w queue timers inflight results h)"
proof (induction "3 * length queue + 2 * length timers + length inflight"
         arbitrary: queue timers inflight results h rule: less_induct)
  case less
  show ?case
  proof (cases "queue \<noteq> [] \<and> has_slot r timers inflight")
    case True
    define i where "i = pick (next_start w) h queue"
    from True have mem: "i \<in> set queue" by (simp add: i_def pick_mem)
    then have "length queue = Suc (length (remove1 i queue))" by (rule length_remove1_mem)
    then have "Q (remove1 i queue) (timers @ [i]) inflight results
       (h @ [Delay (if concurrency r = 1 then delay r else 0)])
       (map_cycle r w (remove1 i queue) (timers @ [i]) inflight results
          (h @ [Delay (if concurrency r = 1 then delay r else 0)]))"
      by (intro less) simp
    with True mem have "Q queue timers inflight results h
       (map_cycle r w (remove1 i queue) (timers @ [i]) inflight results
          (h @ [Delay (if concurrency r = 1 then delay r else 0)]))"
      by (intro assms(2) [of timers inflight i queue h results]) (simp_all add: i_def)
    with True show ?thesis by (simp add: map_cycle_start i_def)
  next
    case no_start: False
    show ?thesis
    proof (cases "timers @ inflight = []")
      case True
      from no_start True have "queue = []" by (simp add: has_slot_empty)
      with True assms(1) show ?thesis
        using map_cycle_done [OF no_start True, of w results h] by simp
    next
      case running: False
      define i where "i = pick (next_event w) h (timers @ inflight)"
      from running have mem: "i \<in> set (timers @ inflight)"
        unfolding i_def by (rule pick_mem)
      show ?thesis
      proof (cases "i \<in> set timers")
        case fire: True
        note eq = map_cycle_fire [OF no_start running i_def fire, of results]
        from fire have len: "length timers = Suc (length (remove1 i timers))"
          by (rule length_remove1_mem)
        show ?thesis
        proof (cases rule: send_cases [of r "i + 1" h])
          case (1 e)
          with eq assms(3) [OF no_start fire 1(2)] show ?thesis by simp
        next
          case (2 p)
          from len have "Q queue (remove1 i timers) (inflight @ [i]) results (h @ [Invoke (i + 1) p])
            (map_cycle r w queue (remove1 i timers) (inflight @ [i]) results (h @ [Invoke (i + 1) p]))"
            by (intro less) simp
          with assms(4) [OF no_start fire 2(2)] eq 2(1) show ?thesis by simp
        qed
      next
        case answer: False
        with mem have inflight: "i \<in> set inflight" by simp
        then have len: "length inflight = Suc (length (remove1 i inflight))"
          by (rule length_remove1_mem)
        note eq = map_cycle_answer [OF no_start running i_def answer, of results]
        show ?thesis
        proof (cases rule: receive_cases [of w "i + 1" h])
          case (1 e)
          with eq assms(5) [OF no_start inflight answer 1(2)] show ?thesis by simp
        next
          case (2 q)
          let ?v = "map_option Math_round q"
          from len have "Q queue timers (remove1 i inflight) (results[i := ?v])
              (h @ [Reply (i + 1) ?v, Emit (InvokeEv ?v)])
              (map_cycle r w queue timers (remove1 i inflight) (results[i := ?v])
                 (h @ [Reply (i + 1) ?v, Emit (InvokeEv ?v)]))"
            by (intro less) simp
          with assms(6) [OF no_start inflight answer 2(2) refl] eq 2(1) show ?thesis by simp
        qed
      qed
    qed
  qed
qed

lemma map_cycle_extends:
  "\<exists>ext. snd (map_cycle r w queue timers inflight results h) = h @ ext \<and> list_all in_map ext"
  by (rule map_cycle_rule) auto

text \<open>
  The results of the map are ordered by position, whatever the order of the replies.
\<close>

lemma settled_cong: "set p = set p' \<Longrightarrow> settled p results rs ext = settled p' results rs ext"
  by (simp add: settled_def)

lemma settled_skip:
  "replies_to 0 [a] = [] \<Longrightarrow> (\<And>k. replies_to (Suc k) [a] = []) \<Longrightarrow>
   settled p results rs (a # ext) = settled p results rs ext"
  using replies_to_append [of _ "[a]" ext] by (simp add: settled_def)

lemma settled_Reply:
  assumes "settled p' (results[i := v]) rs ext" and "set p' = set p - {i}"
    and "i \<in> set p" and "i < length results"
  shows "settled p results rs (Reply (Suc i) v # ext)"
  unfolding settled_def
proof (intro conjI allI impI)
  from assms(1) show "length rs = length results" by (simp add: settled_def)
next
  fix j assume j: "j < length results"
  show "if j \<in> set p then replies_to (Suc j) (Reply (Suc i) v # ext) = [rs ! j]
        else rs ! j = results ! j \<and> replies_to (Suc j) (Reply (Suc i) v # ext) = []"
  proof (cases "j = i")
    case True
    with assms(2) have "i \<notin> set p'" by simp
    with assms(1,4) have "rs ! i = v \<and> replies_to (Suc i) ext = []"
      by (simp add: settled_def)
    with True assms(3) show ?thesis by simp
  next
    case False
    with assms(2) have "j \<in> set p' \<longleftrightarrow> j \<in> set p" by simp
    with assms(1) j False show ?thesis
      by (simp add: settled_def)
  qed
qed

lemma map_cycle_replies_aux:
  "distinct (queue @ timers @ inflight) \<longrightarrow> (\<forall>i \<in> set (queue @ timers @ inflight). i < length results) \<longrightarrow>
   (\<forall>rs h'. map_cycle r w queue timers inflight results h = (Inr rs, h') \<longrightarrow>
      (\<exists>ext. h' = h @ ext \<and> settled (queue @ timers @ inflight) results rs ext))"
proof (rule map_cycle_rule [where Q = "\<lambda>queue timers inflight results h out.
    distinct (queue @ timers @ inflight) \<longrightarrow> (\<forall>i \<in> set (queue @ timers @ inflight). i < length results) \<longrightarrow>
   (\<forall>rs h'. out = (Inr rs, h') \<longrightarrow>
      (\<exists>ext. h' = h @ ext \<and> settled (queue @ timers @ inflight) results rs ext))"], goal_cases)
  case (1 results h)
  show ?case by (simp add: settled_def)
next
  case (2 queue timers inflight results h i out)
  show ?case
  proof (intro impI allI)
    fix rs h'
    assume d: "distinct (queue @ timers @ inflight)"
      and b: "\<forall>i \<in> set (queue @ timers @ inflight). i < length results"
      and out: "out = (Inr rs, h')"
    let ?new = "remove1 i queue @ (timers @ [i]) @ inflight"
    from d 2(2) have "distinct ?new" by auto
    moreover from d 2(2) have s: "set ?new = set (queue @ timers @ inflight)" by auto
    ultimately obtain ext where "h' = (h @ [Delay (if concurrency r = 1 then delay r else 0)]) @ ext"
      and "settled ?new results rs ext"
      using 2(4) b out by auto
    then show "\<exists>ext. h' = h @ ext \<and> settled (queue @ timers @ inflight) results rs ext"
      using settled_cong [OF s] by (auto simp: settled_skip)
  qed
next
  case (3 queue timers inflight results h i e)
  show ?case by simp
next
  case (4 queue timers inflight results h i p out)
  show ?case
  proof (intro impI allI)
    fix rs h'
    assume d: "distinct (queue @ timers @ inflight)"
      and b: "\<forall>i \<in> set (queue @ timers @ inflight). i < length results"
      and out: "out = (Inr rs, h')"
    let ?new = "queue @ remove1 i timers @ inflight @ [i]"
    from d 4(2) have "distinct ?new" by auto
    moreover from d 4(2) have s: "set ?new = set (queue @ timers @ inflight)" by auto
    ultimately obtain ext where "h' = (h @ [Invoke (i + 1) p]) @ ext"
      and "settled ?new results rs ext"
      using 4(4) b out by auto
    then show "\<exists>ext. h' = h @ ext \<and> settled (queue @ timers @ inflight) results rs ext"
      using settled_cong [OF s] by (auto simp: settled_skip)
  qed
next
  case (5 queue timers inflight results h i e)
  show ?case by simp
next
  case (6 queue timers inflight results h i q v out)
  show ?case
  proof (intro impI allI)
    fix rs h'
    assume d: "distinct (queue @ timers @ inflight)"
      and b: "\<forall>i \<in> set (queue @ timers @ inflight). i < length results"
      and out: "out = (Inr rs, h')"
    let ?new = "queue @ timers @ remove1 i inflight"
    from d have "distinct ?new" by auto
    moreover from d 6(2) have s: "set ?new = set (queue @ timers @ inflight) - {i}" by auto
    moreover from b s have "\<forall>j \<in> set ?new. j < length (results[i := v])" by auto
    ultimately obtain ext where h': "h' = (h @ [Reply (i + 1) v, Emit (InvokeEv v)]) @ ext"
      and "settled ?new (results[i := v]) rs ext"
      using 6(6) out by blast
    moreover from 6(2) b have "i \<in> set (queue @ timers @ inflight)" "i < length results" by auto
    ultimately have "settled (queue @ timers @ inflight) results rs (Reply (Suc i) v # Emit (InvokeEv v) # ext)"
      using s by (intro settled_Reply [where p' = ?new]) (simp_all add: settled_skip)
    with h' show "\<exists>ext. h' = h @ ext \<and> settled (queue @ timers @ inflight) results rs ext"
      by simp
  qed
qed

lemma map_cycle_replies:
  assumes "map_cycle r w [0..<n] [] [] (replicate n None) h = (Inr rs, h')"
  shows "\<exists>ext. h' = h @ ext \<and> length rs = n \<and> (\<forall>i<n. replies_to (Suc i) ext = [rs ! i])"
  using map_cycle_replies_aux [of "[0..<n]" "[]" "[]" "replicate n None" r w h] assms
  by (auto simp: settled_def)

lemma map_cycle_resolves:
  assumes pay: "\<And>i. \<exists>p. resolve_payload (payload r) i = Inr p"
    and inv: "\<And>h i. \<exists>q. invoke w h i = Inr q"
  shows "\<exists>rs h'. map_cycle r w queue timers inflight results h = (Inr rs, h')"
proof (rule map_cycle_rule [where Q = "\<lambda>queue timers inflight results h out. \<exists>rs h'. out = (Inr rs, h')"],
    goal_cases)
  case (3 queue timers inflight results h i e)
  with pay [of "i + 1"] show ?case by simp
next
  case (5 queue timers inflight results h i e)
  with inv [of h "i + 1"] show ?case by simp
qed simp_all


section \<open>The cycle\<close>

lemma invokeLambda_cases:
  obtains e where "invokeLambda r w i h = (Inl e, h)" "resolve_payload (payload r) i = Inl e"
  | e p where "invokeLambda r w i h = (Inl e, h @ [Invoke i p])"
      "resolve_payload (payload r) i = Inr p" "invoke w (h @ [Invoke i p]) i = Inl e"
  | q p where "invokeLambda r w i h = (Inr (map_option Math_round q), h @ [Invoke i p, Reply i (map_option Math_round q)])"
      "resolve_payload (payload r) i = Inr p" "invoke w (h @ [Invoke i p]) i = Inr q"
proof (cases rule: send_cases [of r i h])
  case (1 e)
  then have "invokeLambda r w i h = (Inl e, h)" by (simp add: invokeLambda_def)
  with 1 that(1) show ?thesis by blast
next
  case (2 p)
  show ?thesis
  proof (cases rule: receive_cases [of w i "h @ [Invoke i p]"])
    case (1 e)
    with 2 have "invokeLambda r w i h = (Inl e, h @ [Invoke i p])" by (simp add: invokeLambda_def)
    with 1 2 that(2) show ?thesis by blast
  next
    case (2 q)
    with \<open>invokeLambda_send r i h = (Inr (), h @ [Invoke i p])\<close>
    have "invokeLambda r w i h = (Inr (map_option Math_round q), h @ [Invoke i p, Reply i (map_option Math_round q)])"
      by (simp add: invokeLambda_def)
    with 2 \<open>resolve_payload (payload r) i = Inr p\<close> that(3) show ?thesis by blast
  qed
qed

lemma cycle_cold:
  assumes "\<not> (warmup r \<and> concurrency r = 1)"
  shows "cycle r w n h =
         map_cycle r w [0..<n] [] [] (replicate n None) (h @ [Delay (if warmup r then delay r else 0)])"
  using assms by (simp add: cycle_def)

lemma cycle_warm:
  assumes "warmup r" "concurrency r = 1"
  shows "cycle r w n h =
         (case invokeLambda r w 0 (h @ [Emit Warmup]) of
            (Inl e, h1) \<Rightarrow> (Inl e, h1)
          | (Inr _, h1) \<Rightarrow> map_cycle r w [0..<n] [] [] (replicate n None) (h1 @ [Delay (delay r)]))"
  using assms by (simp add: cycle_def)

text \<open>
  The four ways a cycle can go: no warm-up; a warm-up whose payload function throws; a
  warm-up whose invocation is rejected; a warm-up that resolves, followed by the delay and
  the map.
\<close>

lemma cycle_shape:
  obtains (cold) rest where "\<not> (warmup r \<and> concurrency r = 1)"
      "cycle r w n h = map_cycle r w [0..<n] [] [] (replicate n None) (h @ [Delay (if warmup r then delay r else 0)])"
      "snd (cycle r w n h) = h @ Delay (if warmup r then delay r else 0) # rest" "list_all in_map rest"
  | (throws) e where "warmup r" "concurrency r = 1" "resolve_payload (payload r) 0 = Inl e"
      "cycle r w n h = (Inl e, h @ [Emit Warmup])"
  | (rejected) e p where "warmup r" "concurrency r = 1" "resolve_payload (payload r) 0 = Inr p"
      "invoke w (h @ [Emit Warmup, Invoke 0 p]) 0 = Inl e"
      "cycle r w n h = (Inl e, h @ [Emit Warmup, Invoke 0 p])"
  | (warm) q p rest where "warmup r" "concurrency r = 1" "resolve_payload (payload r) 0 = Inr p"
      "invoke w (h @ [Emit Warmup, Invoke 0 p]) 0 = Inr q"
      "cycle r w n h = map_cycle r w [0..<n] [] [] (replicate n None)
         (h @ [Emit Warmup, Invoke 0 p, Reply 0 (map_option Math_round q), Delay (delay r)])"
      "snd (cycle r w n h) = h @ [Emit Warmup, Invoke 0 p, Reply 0 (map_option Math_round q), Delay (delay r)] @ rest"
      "list_all in_map rest"
proof (cases "warmup r \<and> concurrency r = 1")
  case False
  note eq = cycle_cold [OF False, of w n h]
  from map_cycle_extends [of r w "[0..<n]" "[]" "[]" "replicate n None" "h @ [Delay (if warmup r then delay r else 0)]"]
  obtain rest where "snd (cycle r w n h) = (h @ [Delay (if warmup r then delay r else 0)]) @ rest" "list_all in_map rest"
    using eq by auto
  with False eq cold show ?thesis by simp
next
  case True
  then have wu: "warmup r" "concurrency r = 1" by simp_all
  note eq = cycle_warm [OF wu, of w n h]
  show ?thesis
  proof (cases rule: invokeLambda_cases [of r w 0 "h @ [Emit Warmup]"])
    case (1 e)
    with eq wu throws show ?thesis by simp
  next
    case (2 e p)
    with eq wu rejected show ?thesis by simp
  next
    case (3 q p)
    let ?h1 = "h @ [Emit Warmup, Invoke 0 p, Reply 0 (map_option Math_round q), Delay (delay r)]"
    from 3 eq have c: "cycle r w n h = map_cycle r w [0..<n] [] [] (replicate n None) ?h1" by simp
    from map_cycle_extends [of r w "[0..<n]" "[]" "[]" "replicate n None" ?h1]
    obtain rest where "snd (cycle r w n h) = ?h1 @ rest" "list_all in_map rest"
      using c by auto
    with 3 c wu warm [of p q rest] show ?thesis by simp
  qed
qed

lemma cycle_extends: "\<exists>ext. snd (cycle r w n h) = h @ ext \<and> list_all in_cycle ext"
proof (cases rule: cycle_shape [of r w n h])
  case (cold rest)
  then show ?thesis by (auto simp: list_all_iff in_map_in_cycle)
next
  case (warm q p rest)
  then show ?thesis by (auto simp: list_all_iff in_map_in_cycle)
qed auto

lemma cycle_replies:
  assumes "cycle r w n h = (Inr rs, h')"
  shows "\<exists>ext. h' = h @ ext \<and> length rs = n \<and> (\<forall>i<n. replies_to (Suc i) ext = [rs ! i])"
proof (cases rule: cycle_shape [of r w n h])
  case (cold rest)
  with assms map_cycle_replies [of r w n "h @ [Delay (if warmup r then delay r else 0)]" rs h']
  show ?thesis by (auto simp: replies_to_append)
next
  case (warm q p rest)
  let ?pre = "[Emit Warmup, Invoke 0 p, Reply 0 (map_option Math_round q), Delay (delay r)]"
  from warm assms map_cycle_replies [of r w n "h @ ?pre" rs h']
  obtain ext where "h' = (h @ ?pre) @ ext" "length rs = n" "\<forall>i<n. replies_to (Suc i) ext = [rs ! i]"
    by auto
  then have "h' = h @ (?pre @ ext) \<and> length rs = n \<and> (\<forall>i<n. replies_to (Suc i) (?pre @ ext) = [rs ! i])"
    by simp
  then show ?thesis by blast
qed (use assms in auto)

lemma cycle_resolves:
  assumes pay: "\<And>i. \<exists>p. resolve_payload (payload r) i = Inr p"
    and inv: "\<And>h i. \<exists>q. invoke w h i = Inr q"
  shows "\<exists>rs h'. cycle r w n h = (Inr rs, h')"
proof (cases rule: cycle_shape [of r w n h])
  case (cold rest)
  with map_cycle_resolves [OF pay inv] show ?thesis by simp
next
  case (throws e)
  with pay [of 0] show ?thesis by simp
next
  case (rejected e p)
  with inv [of "h @ [Emit Warmup, Invoke 0 p]" 0] show ?thesis by simp
next
  case (warm q p rest)
  with map_cycle_resolves [OF pay inv] show ?thesis by simp
qed

text \<open>
  Claim C10. A cycle of \<open>n\<close> repeats that resolves, resolves to a sequence \<open>rs\<close> of exactly \<open>n\<close>
  entries, and for every position \<open>i < n\<close> the invocation of index \<open>i + 1\<close> has exactly one
  reply in the trace of the cycle, which is \<open>rs ! i\<close> (an integer duration, rounded, or
  \<^verbatim>\<open>null\<close>): the results are ordered by index under every scheduling of starts, timers and
  responses. And the cycle does resolve when no payload function throws and the service
  rejects no invocation.
\<close>

theorem cycle_results_in_dispatch_order:
  "(cycle r w n h = (Inr rs, h') \<longrightarrow>
      (\<exists>ext. h' = h @ ext \<and> length rs = n \<and> (\<forall>i<n. replies_to (Suc i) ext = [rs ! i])))
   \<and> ((\<forall>i. \<exists>p. resolve_payload (payload r) i = Inr p) \<and> (\<forall>t i. \<exists>q. invoke w t i = Inr q) \<longrightarrow>
      (\<exists>rs h'. cycle r w n h = (Inr rs, h')))"
  using cycle_replies [of r w n h rs h'] cycle_resolves [of r w n h] by blast

text \<open>
  Three repeats under a limit of two, the youngest request answered first: the requests go
  out in the order 2, 1, 3 and the results are those of 1, 2, 3.
\<close>

theorem cycle_results_in_dispatch_order_witness:
  "(\<forall>i. \<exists>p. resolve_payload (payload (sweep [128] 3 2 False 5)) i = Inr p)
   \<and> (\<forall>t i. \<exists>q. invoke youngest_first t i = Inr q)
   \<and> fst (cycle (sweep [128] 3 2 False 5) youngest_first 3 []) = Inr [Some 110, Some 120, Some 130]
   \<and> ticks (snd (cycle (sweep [128] 3 2 False 5) youngest_first 3 []))
       = [Wait 0, Wait 0, Wait 0, Call 2, Wait 0, Call 1, Call 3]
   \<and> replies_to 1 (snd (cycle (sweep [128] 3 2 False 5) youngest_first 3 [])) = [Some 110]
   \<and> replies_to 2 (snd (cycle (sweep [128] 3 2 False 5) youngest_first 3 [])) = [Some 120]
   \<and> replies_to 3 (snd (cycle (sweep [128] 3 2 False 5) youngest_first 3 [])) = [Some 130]"
proof -
  let ?r = "sweep [128] 3 2 False 5"
  let ?c = "cycle ?r youngest_first 3 []"
  have p: "\<forall>i. \<exists>p. resolve_payload (payload ?r) i = Inr p"
    by (simp add: sweep_def resolve_payload_def)
  have q: "\<forall>t i. \<exists>q. invoke youngest_first t i = Inr q"
    by (simp add: youngest_first_def steady_def)
  note order = cycle_results_in_dispatch_order
                 [of ?r youngest_first 3 "[]" "[Some 110, Some 120, Some 130]" "snd ?c"]
  from order p q obtain rs h' where "?c = (Inr rs, h')" by blast
  have f: "fst ?c = Inr [Some 110, Some 120, Some 130]" by code_simp
  have t: "ticks (snd ?c) = [Wait 0, Wait 0, Wait 0, Call 2, Wait 0, Call 1, Call 3]" by code_simp
  have c: "?c = (Inr [Some 110, Some 120, Some 130], snd ?c)"
    using f by (cases ?c) simp
  from order c
  have all: "\<forall>i<3. replies_to (Suc i) (snd ?c) = [[Some 110, Some 120, Some 130] ! i]"
    by auto
  have "replies_to 1 (snd ?c) = [Some 110]" using all [rule_format, of 0] by simp
  moreover have "replies_to 2 (snd ?c) = [Some 120]"
    using all [rule_format, of 1] by (simp add: numeral_2_eq_2)
  moreover have "replies_to 3 (snd ?c) = [Some 130]"
    using all [rule_format, of 2] by (simp add: numeral_3_eq_3)
  ultimately show ?thesis using p q f t by simp
qed

text \<open>
  Claim C4, as amended. When warm-up is enabled and the concurrency is 1, the cycle starts
  with the \<^verbatim>\<open>'warmup'\<close> event, then the invocation of index 0 and, once it has replied, a wait of
  \<open>delay\<close> ms; what follows holds no other \<^verbatim>\<open>'warmup'\<close> event and no other invocation of index
  0. Otherwise the cycle holds neither a \<^verbatim>\<open>'warmup'\<close> event nor an invocation of index 0.
\<close>

theorem warmup_only_when_sequential:
  "(warmup r \<and> concurrency r = 1 \<longrightarrow>
      (\<forall>p q. resolve_payload (payload r) 0 = Inr p \<longrightarrow>
             invoke w (h @ [Emit Warmup, Invoke 0 p]) 0 = Inr q \<longrightarrow>
         (\<exists>rest. snd (cycle r w n h)
                    = h @ [Emit Warmup, Invoke 0 p, Reply 0 (map_option Math_round q), Delay (delay r)] @ rest
                \<and> Emit Warmup \<notin> set rest \<and> (\<forall>p'. Invoke 0 p' \<notin> set rest))))
   \<and> (\<not> (warmup r \<and> concurrency r = 1) \<longrightarrow>
      (\<exists>ext. snd (cycle r w n h) = h @ ext
                \<and> Emit Warmup \<notin> set ext \<and> (\<forall>p'. Invoke 0 p' \<notin> set ext)))"
proof (cases rule: cycle_shape [of r w n h])
  case (cold rest)
  with in_map_quiet [OF cold(4)] show ?thesis by auto
next
  case (throws e)
  then show ?thesis by simp
next
  case (rejected e p)
  then show ?thesis by simp
next
  case (warm q p rest)
  with in_map_quiet [OF warm(7)] show ?thesis by auto
qed

text \<open>
  The claim as stated fails twice. With warm-up enabled and a concurrency of 2 the cycle
  starts with a delay of \<open>delay\<close> ms, here 100, before the first mapper. And with a
  concurrency of 1 the \<^verbatim>\<open>'warmup'\<close> event precedes the warm-up invocation instead of following
  it.
\<close>

theorem warmup_counterexample:
  "snd (cycle (sweep [128] 1 2 True 100) steady 1 [])
     = [Delay 100, Delay 0, Invoke 1 (), Reply 1 (Some 100), Emit (InvokeEv (Some 100))]
   \<and> snd (cycle (sweep [128] 1 1 True 100) steady 1 [])
     = [Emit Warmup, Invoke 0 (), Reply 0 (Some 100), Delay 100,
        Delay 100, Invoke 1 (), Reply 1 (Some 100), Emit (InvokeEv (Some 100))]"
  by code_simp

text \<open>
  Both cases of the amended claim on the steady service: concurrency 1 and concurrency 2,
  warm-up enabled.
\<close>

theorem warmup_only_when_sequential_witness:
  "warmup (sweep [128] 1 1 True 100) \<and> concurrency (sweep [128] 1 1 True 100) = 1
   \<and> resolve_payload (payload (sweep [128] 1 1 True 100)) 0 = Inr ()
   \<and> invoke steady [Emit Warmup, Invoke 0 ()] 0 = Inr (Some (1004 / 10))
   \<and> take 4 (snd (cycle (sweep [128] 1 1 True 100) steady 1 []))
       = [Emit Warmup, Invoke 0 (), Reply 0 (Some 100), Delay 100]
   \<and> concurrency (sweep [128] 1 2 True 100) \<noteq> 1
   \<and> Emit Warmup \<notin> set (snd (cycle (sweep [128] 1 2 True 100) steady 1 []))
   \<and> Invoke 0 () \<notin> set (snd (cycle (sweep [128] 1 2 True 100) steady 1 []))"
proof -
  let ?r1 = "sweep [128] 1 1 True 100" and ?r2 = "sweep [128] 1 2 True 100"
  have a: "warmup ?r1 \<and> concurrency ?r1 = 1" "resolve_payload (payload ?r1) 0 = Inr ()"
    "invoke steady ([] @ [Emit Warmup, Invoke 0 ()]) 0 = Inr (Some (1004 / 10))"
    by (simp_all add: sweep_def resolve_payload_def steady_def)
  have r: "Math_round (1004 / 10) = 100" by code_simp
  from warmup_only_when_sequential [of ?r1 steady "[]" 1, THEN conjunct1, rule_format, OF a] r
  have 1: "take 4 (snd (cycle ?r1 steady 1 [])) = [Emit Warmup, Invoke 0 (), Reply 0 (Some 100), Delay 100]"
    by (auto simp: sweep_def)
  have b: "\<not> (warmup ?r2 \<and> concurrency ?r2 = 1)" by (simp add: sweep_def)
  from warmup_only_when_sequential [of ?r2 steady "[]" 1, THEN conjunct2, rule_format, OF b]
  have 2: "Emit Warmup \<notin> set (snd (cycle ?r2 steady 1 []))" "Invoke 0 () \<notin> set (snd (cycle ?r2 steady 1 []))"
    by auto
  from a 1 b 2 show ?thesis by (simp add: sweep_def)
qed




section \<open>The sweep and the run\<close>

lemma reducer_cases:
  obtains (update_rejected) e where "updateFunctionConfiguration w h s = Inl e"
      "reducer r w report s h = (Inl e, h @ [UpdateFunctionConfiguration s])"
  | (cycle_rejected) e h2 where "updateFunctionConfiguration w h s = Inr ()"
      "cycle r w (repeats r) (h @ [UpdateFunctionConfiguration s, Emit (Step s)]) = (Inl e, h2)"
      "reducer r w report s h = (Inl e, h2)"
  | (reported) cycleResult h2 where "updateFunctionConfiguration w h s = Inr ()"
      "cycle r w (repeats r) (h @ [UpdateFunctionConfiguration s, Emit (Step s)]) = (Inr cycleResult, h2)"
      "reducer r w report s h =
         (Inr (AList.update s (parseCycleResult (percentile w) cycleResult) report),
          h2 @ [Emit (Result (parseCycleResult (percentile w) cycleResult))])"
proof (cases "updateFunctionConfiguration w h s")
  case (Inl e)
  then have "reducer r w report s h = (Inl e, h @ [UpdateFunctionConfiguration s])"
    by (simp add: reducer_def setAllocatedMemory_def)
  with Inl update_rejected show ?thesis by blast
next
  case (Inr u)
  then have u: "updateFunctionConfiguration w h s = Inr ()" by simp
  obtain out h2 where c: "cycle r w (repeats r) (h @ [UpdateFunctionConfiguration s, Emit (Step s)]) = (out, h2)"
    by (cases "cycle r w (repeats r) (h @ [UpdateFunctionConfiguration s, Emit (Step s)])")
  show ?thesis
  proof (cases out)
    case (Inl e)
    with u c have "reducer r w report s h = (Inl e, h2)"
      by (simp add: reducer_def setAllocatedMemory_def)
    with u c Inl cycle_rejected show ?thesis by blast
  next
    case (Inr cycleResult)
    with u c have "reducer r w report s h =
         (Inr (AList.update s (parseCycleResult (percentile w) cycleResult) report),
          h2 @ [Emit (Result (parseCycleResult (percentile w) cycleResult))])"
      by (simp add: reducer_def setAllocatedMemory_def Let_def)
    with u c Inr reported show ?thesis by blast
  qed
qed

lemma reducer_extends:
  assumes "reducer r w report s h = (out, h')"
  shows "\<exists>ext. h' = h @ ext \<and> Emit Finish \<notin> set ext \<and> updates ext = [s]
           \<and> (\<forall>report'. out = Inr report' \<longrightarrow> started ext = [s])"
proof (cases rule: reducer_cases [of w h s r report])
  case (update_rejected e)
  with assms show ?thesis by auto
next
  case (cycle_rejected e h2)
  from cycle_extends [of r w "repeats r" "h @ [UpdateFunctionConfiguration s, Emit (Step s)]"] cycle_rejected(2)
  obtain ext where "h2 = (h @ [UpdateFunctionConfiguration s, Emit (Step s)]) @ ext" "list_all in_cycle ext"
    by auto
  with in_cycle_quiet [of ext] cycle_rejected(3) assms show ?thesis
    by (auto simp: updates_append)
next
  case (reported cycleResult h2)
  from cycle_extends [of r w "repeats r" "h @ [UpdateFunctionConfiguration s, Emit (Step s)]"] reported(2)
  obtain ext where "h2 = (h @ [UpdateFunctionConfiguration s, Emit (Step s)]) @ ext" "list_all in_cycle ext"
    by auto
  with in_cycle_quiet [of ext] reported(3) assms show ?thesis
    by (auto simp: updates_append started_append)
qed

lemma reduce_steps_extends:
  "reduce_steps r w ss report h = (out, h') \<Longrightarrow>
   \<exists>ext k. h' = h @ ext \<and> Emit Finish \<notin> set ext \<and> k \<le> length ss \<and> updates ext = take k ss
     \<and> (\<forall>report'. out = Inr report' \<longrightarrow> updates ext = ss \<and> started ext = ss)"
proof (induction ss arbitrary: report h)
  case Nil
  then show ?case by auto
next
  case (Cons s ss)
  obtain o1 h1 where red: "reducer r w report s h = (o1, h1)"
    by (cases "reducer r w report s h")
  from reducer_extends [OF red] obtain e1 where e1: "h1 = h @ e1" "Emit Finish \<notin> set e1"
    "updates e1 = [s]" "\<forall>report'. o1 = Inr report' \<longrightarrow> started e1 = [s]"
    by blast
  show ?case
  proof (cases o1)
    case (Inl e)
    with red Cons.prems have "h' = h1" "out = Inl e" by simp_all
    with e1 have "h' = h @ e1 \<and> Emit Finish \<notin> set e1 \<and> Suc 0 \<le> length (s # ss)
        \<and> updates e1 = take (Suc 0) (s # ss)
        \<and> (\<forall>report'. out = Inr report' \<longrightarrow> updates e1 = s # ss \<and> started e1 = s # ss)"
      by simp
    then show ?thesis by blast
  next
    case (Inr report1)
    with red Cons.prems have "reduce_steps r w ss report1 h1 = (out, h')" by simp
    from Cons.IH [OF this] obtain e2 k where e2: "h' = h1 @ e2" "Emit Finish \<notin> set e2"
      "k \<le> length ss" "updates e2 = take k ss"
      "\<forall>report'. out = Inr report' \<longrightarrow> updates e2 = ss \<and> started e2 = ss"
      by blast
    with e1 Inr have "h' = h @ (e1 @ e2) \<and> Emit Finish \<notin> set (e1 @ e2) \<and> Suc k \<le> length (s # ss)
        \<and> updates (e1 @ e2) = take (Suc k) (s # ss)
        \<and> (\<forall>report'. out = Inr report' \<longrightarrow> updates (e1 @ e2) = s # ss \<and> started (e1 @ e2) = s # ss)"
      by (simp add: updates_append started_append)
    then show ?thesis by blast
  qed
qed

lemma reduce_steps_append:
  "reduce_steps r w (pre @ post) report h =
     (case reduce_steps r w pre report h of
        (Inl e, h1) \<Rightarrow> (Inl e, h1)
      | (Inr report1, h1) \<Rightarrow> reduce_steps r w post report1 h1)"
  by (induction pre arbitrary: report h) (auto split: prod.splits sum.splits)

lemma run_eq:
  assumes "getFunctionConfiguration w [] = Inr m"
    and "reduce_steps r w (steps r) [] [GetFunctionConfiguration, Emit (Start m)] = (outcome, h1)"
  shows "run r w =
     (case updateFunctionConfiguration w (h1 @ [Emit Finish]) m of
        Inl e \<Rightarrow> Inl e | Inr u \<Rightarrow> outcome,
      h1 @ [Emit Finish, UpdateFunctionConfiguration m])"
  using assms
  by (simp add: run_def getAllocatedMemory_def setAllocatedMemory_def split: sum.splits)

text \<open>
  Claim C2, as amended. When the update of a step succeeds, no payload function throws and
  the service rejects no invocation, the cycle of the step resolves, replies of \<^verbatim>\<open>null\<close> or not,
  and the sequence handed to \<^verbatim>\<open>_parseCycleResult\<close> is the whole result of the cycle: one entry
  per repeat, the entry at position \<open>i\<close> being the reply of invocation \<open>i + 1\<close>, a \<^verbatim>\<open>null\<close>
  reply included. The report of that sequence is what the \<^verbatim>\<open>'result'\<close> event carries and what
  the run report stores under the step.
\<close>

theorem reducer_receives_whole_cycle:
  assumes upd: "updateFunctionConfiguration w h s = Inr ()"
    and pay: "\<And>i. \<exists>p. resolve_payload (payload r) i = Inr p"
    and inv: "\<And>t i. \<exists>q. invoke w t i = Inr q"
  shows "\<exists>cycleResult ext.
           length cycleResult = repeats r
           \<and> (\<forall>i<repeats r. replies_to (Suc i) ext = [cycleResult ! i])
           \<and> reducer r w report s h =
               (Inr (AList.update s (parseCycleResult (percentile w) cycleResult) report),
                h @ [UpdateFunctionConfiguration s, Emit (Step s)] @ ext
                  @ [Emit (Result (parseCycleResult (percentile w) cycleResult))])"
proof -
  let ?h1 = "h @ [UpdateFunctionConfiguration s, Emit (Step s)]"
  from cycle_resolves [OF pay inv] obtain cycleResult h2 where
    c: "cycle r w (repeats r) ?h1 = (Inr cycleResult, h2)"
    by blast
  from cycle_replies [OF c] obtain ext where
    ext: "h2 = ?h1 @ ext" "length cycleResult = repeats r"
      "\<forall>i<repeats r. replies_to (Suc i) ext = [cycleResult ! i]"
    by blast
  from upd c have "reducer r w report s h =
      (Inr (AList.update s (parseCycleResult (percentile w) cycleResult) report),
       h2 @ [Emit (Result (parseCycleResult (percentile w) cycleResult))])"
    by (simp add: reducer_def setAllocatedMemory_def Let_def)
  with ext show ?thesis by auto
qed

text \<open>
  The claim as stated fails: nothing removes a \<^verbatim>\<open>null\<close>. A cycle with the replies 100 and
  \<^verbatim>\<open>null\<close> is reported with \<open>min = 0\<close> and \<open>avg = 50\<close>, where the non-null durations alone would
  give \<open>min = 100\<close> and \<open>avg = 100\<close>.
\<close>

theorem nulls_reach_reducer_counterexample:
  "fst (cycle (sweep [128] 2 1 False 0) patchy 2 []) = Inr [Some 100, None]
   \<and> fst (run (sweep [128] 2 1 False 0) patchy)
       = Inr [(128, \<lparr>min' = Num 0, max' = Num 100, avg = Num 50, percentiles = blank\<rparr>)]
   \<and> parseCycleResult (percentile patchy) [Some 100]
       = \<lparr>min' = Num 100, max' = Num 100, avg = Num 100, percentiles = blank\<rparr>"
  by code_simp

text \<open>
  The amended claim on the patchy service: the replies 100, \<^verbatim>\<open>null\<close>, 100 all reach the
  reducer.
\<close>

theorem reducer_receives_whole_cycle_witness:
  "updateFunctionConfiguration patchy [] 128 = Inr ()
   \<and> reducer (sweep [128] 3 1 True 5) patchy [] 128 [] =
       (Inr [(128, parseCycleResult (percentile patchy) [Some 100, None, Some 100])],
        [UpdateFunctionConfiguration 128, Emit (Step 128), Emit Warmup, Invoke 0 (), Reply 0 None,
         Delay 5, Delay 5, Invoke 1 (), Reply 1 (Some 100), Emit (InvokeEv (Some 100)),
         Delay 5, Invoke 2 (), Reply 2 None, Emit (InvokeEv None),
         Delay 5, Invoke 3 (), Reply 3 (Some 100), Emit (InvokeEv (Some 100)),
         Emit (Result (parseCycleResult (percentile patchy) [Some 100, None, Some 100]))])"
proof -
  have u: "updateFunctionConfiguration patchy [] 128 = Inr ()"
    by (simp add: patchy_def steady_def)
  have p: "\<And>i. \<exists>p. resolve_payload (payload (sweep [128] 3 1 True 5)) i = Inr p"
    by (simp add: sweep_def resolve_payload_def)
  have i: "\<And>t i. \<exists>q. invoke patchy t i = Inr q"
    by (simp add: patchy_def steady_def)
  have "reducer (sweep [128] 3 1 True 5) patchy [] 128 [] =
       (Inr [(128, parseCycleResult (percentile patchy) [Some 100, None, Some 100])],
        [UpdateFunctionConfiguration 128, Emit (Step 128), Emit Warmup, Invoke 0 (), Reply 0 None,
         Delay 5, Delay 5, Invoke 1 (), Reply 1 (Some 100), Emit (InvokeEv (Some 100)),
         Delay 5, Invoke 2 (), Reply 2 None, Emit (InvokeEv None),
         Delay 5, Invoke 3 (), Reply 3 (Some 100), Emit (InvokeEv (Some 100)),
         Emit (Result (parseCycleResult (percentile patchy) [Some 100, None, Some 100]))])"
    by code_simp
  with u reducer_receives_whole_cycle [OF u p i, of "[]"] show ?thesis by simp
qed

text \<open>
  Claim C3, as amended. When the cycle of a step resolves to \<^verbatim>\<open>null\<close> at every position, that
  is, when every invocation of the cycle replies \<^verbatim>\<open>null\<close>, the step does not fail: the reducer
  turns the cycle into a step report with \<open>min = max = avg = 0\<close>, which is emitted and stored
  like any other, and the sweep goes on. The trace of the run still ends with the
  \<^verbatim>\<open>'finish'\<close> event and the update that restores the original memory size.
\<close>

theorem all_null_cycle_is_reported:
  assumes get: "getFunctionConfiguration w [] = Inr m"
    and sw: "steps r = pre @ s # post"
    and before: "reduce_steps r w pre [] [GetFunctionConfiguration, Emit (Start m)] = (Inr report, h1)"
    and applied: "updateFunctionConfiguration w h1 s = Inr ()"
    and cyc: "cycle r w (repeats r) (h1 @ [UpdateFunctionConfiguration s, Emit (Step s)])
                = (Inr cycleResult, h2)"
    and some: "cycleResult \<noteq> []"
    and nulls: "\<forall>v \<in> set cycleResult. v = None"
  shows "\<exists>sr body.
           min' sr = Num 0 \<and> max' sr = Num 0 \<and> avg sr = Num 0
           \<and> reducer r w report s h1 = (Inr (AList.update s sr report), h2 @ [Emit (Result sr)])
           \<and> snd (run r w) = h2 @ [Emit (Result sr)] @ body
                                @ [Emit Finish, UpdateFunctionConfiguration m]
           \<and> Emit Finish \<notin> set body"
proof -
  let ?sr = "parseCycleResult (percentile w) cycleResult"
  let ?h0 = "[GetFunctionConfiguration, Emit (Start m)]"
  from nulls have "cycleResult = replicate (length cycleResult) None"
    by (metis replicate_length_same)
  with some parseCycleResult_all_null [of "length cycleResult" "percentile w"]
  have zero: "min' ?sr = Num 0" "max' ?sr = Num 0" "avg ?sr = Num 0"
    by simp_all
  from applied cyc
  have red: "reducer r w report s h1 = (Inr (AList.update s ?sr report), h2 @ [Emit (Result ?sr)])"
    by (simp add: reducer_def setAllocatedMemory_def Let_def)
  obtain outcome h3 where
    rest: "reduce_steps r w post (AList.update s ?sr report) (h2 @ [Emit (Result ?sr)]) = (outcome, h3)"
    by (cases "reduce_steps r w post (AList.update s ?sr report) (h2 @ [Emit (Result ?sr)])")
  from reduce_steps_extends [OF rest] obtain body where
    body: "h3 = (h2 @ [Emit (Result ?sr)]) @ body" "Emit Finish \<notin> set body"
    by blast
  from before red rest sw have "reduce_steps r w (steps r) [] ?h0 = (outcome, h3)"
    by (simp add: reduce_steps_append)
  from run_eq [OF get this] body
  have "snd (run r w) = h2 @ [Emit (Result ?sr)] @ body @ [Emit Finish, UpdateFunctionConfiguration m]"
    by simp
  with zero red body(2) show ?thesis by blast
qed

text \<open>
  The claim as stated fails: on a service whose logs never hold a report line the run
  resolves, with a step report of zeros.
\<close>

theorem all_null_cycle_counterexample:
  "run (sweep [128] 2 1 False 0) silent =
     (Inr [(128, \<lparr>min' = Num 0, max' = Num 0, avg = Num 0, percentiles = blank\<rparr>)],
      [GetFunctionConfiguration, Emit (Start 512), UpdateFunctionConfiguration 128, Emit (Step 128),
       Delay 0, Delay 0, Invoke 1 (), Reply 1 None, Emit (InvokeEv None),
       Delay 0, Invoke 2 (), Reply 2 None, Emit (InvokeEv None),
       Emit (Result \<lparr>min' = Num 0, max' = Num 0, avg = Num 0, percentiles = blank\<rparr>),
       Emit Finish, UpdateFunctionConfiguration 512])"
  by code_simp

text \<open>
  The amended claim on the silent service, for the first of two steps; the run resolves.
\<close>

theorem all_null_cycle_is_reported_witness:
  "getFunctionConfiguration silent [] = Inr 512
   \<and> steps (sweep [128, 256] 2 1 False 0) = [] @ 128 # [256]
   \<and> updateFunctionConfiguration silent [GetFunctionConfiguration, Emit (Start 512)] 128 = Inr ()
   \<and> cycle (sweep [128, 256] 2 1 False 0) silent 2
        [GetFunctionConfiguration, Emit (Start 512), UpdateFunctionConfiguration 128, Emit (Step 128)]
      = (Inr [None, None],
         [GetFunctionConfiguration, Emit (Start 512), UpdateFunctionConfiguration 128, Emit (Step 128),
          Delay 0, Delay 0, Invoke 1 (), Reply 1 None, Emit (InvokeEv None),
          Delay 0, Invoke 2 (), Reply 2 None, Emit (InvokeEv None)])
   \<and> fst (run (sweep [128, 256] 2 1 False 0) silent) =
       Inr [(128, \<lparr>min' = Num 0, max' = Num 0, avg = Num 0, percentiles = blank\<rparr>),
            (256, \<lparr>min' = Num 0, max' = Num 0, avg = Num 0, percentiles = blank\<rparr>)]
   \<and> updates (snd (run (sweep [128, 256] 2 1 False 0) silent)) = [128, 256, 512]"
proof -
  let ?r = "sweep [128, 256] 2 1 False 0"
  let ?h0 = "[GetFunctionConfiguration, Emit (Start 512)]"
  let ?h2 = "[GetFunctionConfiguration, Emit (Start 512), UpdateFunctionConfiguration 128, Emit (Step 128),
          Delay 0, Delay 0, Invoke 1 (), Reply 1 None, Emit (InvokeEv None),
          Delay 0, Invoke 2 (), Reply 2 None, Emit (InvokeEv None)]"
  have g: "getFunctionConfiguration silent [] = Inr 512"
    by (simp add: silent_def steady_def)
  have s: "steps ?r = [] @ 128 # [256]" by (simp add: sweep_def)
  have b: "reduce_steps ?r silent [] [] ?h0 = (Inr [], ?h0)" by simp
  have u: "updateFunctionConfiguration silent ?h0 128 = Inr ()"
    by (simp add: silent_def steady_def)
  have c0: "cycle ?r silent 2 (?h0 @ [UpdateFunctionConfiguration 128, Emit (Step 128)])
             = (Inr [None, None], ?h2)"
    by code_simp
  then have c: "cycle ?r silent (repeats ?r) (?h0 @ [UpdateFunctionConfiguration 128, Emit (Step 128)])
             = (Inr [None, None], ?h2)"
    by (simp add: sweep_def)
  have n: "[None, None :: int option] \<noteq> []" "\<forall>v \<in> set [None, None :: int option]. v = None"
    by simp_all
  have f: "fst (run ?r silent) =
       Inr [(128, \<lparr>min' = Num 0, max' = Num 0, avg = Num 0, percentiles = blank\<rparr>),
            (256, \<lparr>min' = Num 0, max' = Num 0, avg = Num 0, percentiles = blank\<rparr>)]"
    by code_simp
  have t: "updates (snd (run ?r silent)) = [128, 256, 512]" by code_simp
  from all_null_cycle_is_reported [OF g s b u c n] g s u c0 f t show ?thesis by simp
qed

text \<open>
  Claim C1, as amended. In every run whose first call, \<^verbatim>\<open>getFunctionConfiguration\<close>, resolves
  to \<open>m\<close>, whether all steps complete or the sweep aborts, the trace ends with the \<^verbatim>\<open>'finish'\<close>
  event followed by the update that restores \<open>m\<close>; \<^verbatim>\<open>'finish'\<close> is not emitted before, and the
  updates before it are those of the first \<open>k\<close> steps, one each. So the restoring update is made
  exactly once, and \<^verbatim>\<open>'finish'\<close> is emitted exactly once, just before that update.
\<close>

theorem finish_then_restore_once:
  assumes "getFunctionConfiguration w [] = Inr m"
  shows "\<exists>body k. snd (run r w) = [GetFunctionConfiguration, Emit (Start m)] @ body
                       @ [Emit Finish, UpdateFunctionConfiguration m]
           \<and> Emit Finish \<notin> set body \<and> k \<le> length (steps r) \<and> updates body = take k (steps r)"
proof -
  obtain outcome h1 where
    red: "reduce_steps r w (steps r) [] [GetFunctionConfiguration, Emit (Start m)] = (outcome, h1)"
    by (cases "reduce_steps r w (steps r) [] [GetFunctionConfiguration, Emit (Start m)]")
  from reduce_steps_extends [OF red] obtain body k where
    "h1 = [GetFunctionConfiguration, Emit (Start m)] @ body" "Emit Finish \<notin> set body"
    "k \<le> length (steps r)" "updates body = take k (steps r)"
    by blast
  with run_eq [OF assms red] show ?thesis by auto
qed

text \<open>
  The claim as stated fails on the order of the last two actions: \<^verbatim>\<open>'finish'\<close> is emitted
  before the restoring update is called, not after.
\<close>

theorem finish_before_restore_counterexample:
  "snd (run (sweep [128] 1 1 False 0) steady) =
     [GetFunctionConfiguration, Emit (Start 512), UpdateFunctionConfiguration 128, Emit (Step 128),
      Delay 0, Delay 0, Invoke 1 (), Reply 1 (Some 100), Emit (InvokeEv (Some 100)),
      Emit (Result \<lparr>min' = Num 100, max' = Num 100, avg = Num 100, percentiles = blank\<rparr>),
      Emit Finish, UpdateFunctionConfiguration 512]"
  by code_simp

text \<open>
  The amended claim on a run that aborts in its second step.
\<close>

theorem finish_then_restore_once_witness:
  "getFunctionConfiguration failing_at_256 [] = Inr 512
   \<and> fst (run (sweep [128, 256, 1024] 2 1 False 0) failing_at_256) = Inl InvocationError
   \<and> updates (snd (run (sweep [128, 256, 1024] 2 1 False 0) failing_at_256)) = [128, 256, 512]
   \<and> drop 19 (snd (run (sweep [128, 256, 1024] 2 1 False 0) failing_at_256))
       = [Emit Finish, UpdateFunctionConfiguration 512]"
proof -
  have g: "getFunctionConfiguration failing_at_256 [] = Inr 512"
    by (simp add: failing_at_256_def steady_def)
  have "fst (run (sweep [128, 256, 1024] 2 1 False 0) failing_at_256) = Inl InvocationError"
    by code_simp
  moreover
  have "updates (snd (run (sweep [128, 256, 1024] 2 1 False 0) failing_at_256)) = [128, 256, 512]"
    by code_simp
  moreover
  have "drop 19 (snd (run (sweep [128, 256, 1024] 2 1 False 0) failing_at_256))
       = [Emit Finish, UpdateFunctionConfiguration 512]"
    by code_simp
  ultimately show ?thesis
    using g finish_then_restore_once [OF g, of "sweep [128, 256, 1024] 2 1 False 0"] by simp
qed



text \<open>
  Claim C9, as amended. When the sweep rejects with \<open>e1\<close> and the restoring update then
  rejects with \<open>e2\<close>, the run rejects with \<open>e2\<close> alone: the original error is dropped.
\<close>

theorem restore_failure_replaces_error:
  assumes "getFunctionConfiguration w [] = Inr m"
    and "reduce_steps r w (steps r) [] [GetFunctionConfiguration, Emit (Start m)] = (Inl e1, h1)"
    and "updateFunctionConfiguration w (h1 @ [Emit Finish]) m = Inl e2"
  shows "run r w = (Inl e2, h1 @ [Emit Finish, UpdateFunctionConfiguration m])"
  using run_eq [OF assms(1,2)] assms(3) by simp

text \<open>
  The claim as stated fails: the sweep rejects with \<open>InvocationError\<close>, the restoring update
  with \<open>ConfigurationUpdateError\<close>, and the run rejects with the latter, which carries nothing
  of the former.
\<close>

theorem restore_failure_counterexample:
  "fst (reduce_steps (sweep [128] 1 1 False 0) unrestorable [128] []
          [GetFunctionConfiguration, Emit (Start 512)]) = Inl InvocationError
   \<and> run (sweep [128] 1 1 False 0) unrestorable =
       (Inl ConfigurationUpdateError,
        [GetFunctionConfiguration, Emit (Start 512), UpdateFunctionConfiguration 128, Emit (Step 128),
         Delay 0, Delay 0, Invoke 1 (), Emit Finish, UpdateFunctionConfiguration 512])"
  by code_simp

text \<open>
  The amended claim on a run with warm-up, whose warm-up invocation is rejected.
\<close>

theorem restore_failure_replaces_error_witness:
  "getFunctionConfiguration unrestorable [] = Inr 512
   \<and> reduce_steps (sweep [128, 256] 2 1 True 5) unrestorable [128, 256] []
          [GetFunctionConfiguration, Emit (Start 512)]
       = (Inl InvocationError,
          [GetFunctionConfiguration, Emit (Start 512), UpdateFunctionConfiguration 128, Emit (Step 128),
           Emit Warmup, Invoke 0 ()])
   \<and> updateFunctionConfiguration unrestorable
         [GetFunctionConfiguration, Emit (Start 512), UpdateFunctionConfiguration 128, Emit (Step 128),
           Emit Warmup, Invoke 0 (), Emit Finish] 512 = Inl ConfigurationUpdateError
   \<and> fst (run (sweep [128, 256] 2 1 True 5) unrestorable) = Inl ConfigurationUpdateError"
proof -
  let ?r = "sweep [128, 256] 2 1 True 5"
  let ?h1 = "[GetFunctionConfiguration, Emit (Start 512), UpdateFunctionConfiguration 128, Emit (Step 128),
           Emit Warmup, Invoke 0 ()]"
  have g: "getFunctionConfiguration unrestorable [] = Inr 512"
    by (simp add: unrestorable_def steady_def)
  have "reduce_steps ?r unrestorable [128, 256] [] [GetFunctionConfiguration, Emit (Start 512)]
       = (Inl InvocationError, ?h1)"
    by code_simp
  then have b: "reduce_steps ?r unrestorable (steps ?r) [] [GetFunctionConfiguration, Emit (Start 512)]
       = (Inl InvocationError, ?h1)"
    by (simp add: sweep_def)
  have u: "updateFunctionConfiguration unrestorable (?h1 @ [Emit Finish]) 512 = Inl ConfigurationUpdateError"
    by (simp add: unrestorable_def steady_def)
  from restore_failure_replaces_error [OF g b u] g b u show ?thesis by (simp add: sweep_def)
qed

end
